theory Spec2Isabelle
  imports Main
begin

section \<open>Python strings, errors and the character tables\<close>

text \<open>
  A Python \<open>str\<close> is a sequence of Unicode code points, so a character is a natural
  number and a string is a list of them. \<open>ord\<close> reads an 8-bit character of a HOL
  string literal as the code point of the same number, and \<open>str\<close> does so for a
  whole literal.
\<close>

type_synonym pychar = nat
type_synonym pystr = "pychar list"

definition ord :: "char \<Rightarrow> pychar" where
  "ord c = of_char c"

definition str :: "string \<Rightarrow> pystr" where
  "str s = map ord s"

text \<open>
  The exceptions of \<open>playfair_cipher.py\<close>: the \<open>ValueError\<close> of \<open>create_grid\<close>
  (line 17), the \<open>ValueError\<close> of \<open>find_coordinates\<close> (line 123, it carries the
  character), and the \<open>IndexError\<close> that Python raises on an index out of range.
\<close>

datatype error = ValueError_keyword | ValueError_not_found pychar | IndexError

text \<open>
  \<open>str.isalpha\<close> and \<open>str.upper\<close> consult the Unicode character database, which is
  part of the Python runtime and not of the repository. The two blocks Basic Latin and
  Latin-1 Supplement (code points below 256) are tabulated here, with the two letters
  outside them that upper-casing a Latin-1 character produces (U+0178 and U+039C); what
  the database says about every other code point is a parameter of the model, so that
  each theorem holds whatever the rest of the database is.
\<close>

record ucd =
  alpha_above :: "pychar \<Rightarrow> bool"
  upper_above :: "pychar \<Rightarrow> pystr"

definition isalpha :: "ucd \<Rightarrow> pychar \<Rightarrow> bool" where
  "isalpha U c =
     (if c < 256 then
        (65 \<le> c \<and> c \<le> 90) \<or> (97 \<le> c \<and> c \<le> 122)
        \<or> c = 170 \<or> c = 181 \<or> c = 186
        \<or> (192 \<le> c \<and> c \<le> 214) \<or> (216 \<le> c \<and> c \<le> 246) \<or> (248 \<le> c \<and> c \<le> 255)
      else if c = 376 \<or> c = 924 then True
      else alpha_above U c)"

text \<open>
  \<open>str.upper\<close> maps each character on its own; one character may become two
  (U+00DF becomes \<open>SS\<close>) or leave Latin-1 (U+00B5 becomes U+039C, U+00FF becomes U+0178).
\<close>

definition upper_char :: "ucd \<Rightarrow> pychar \<Rightarrow> pystr" where
  "upper_char U c =
     (if c < 256 then
        (if 97 \<le> c \<and> c \<le> 122 then [c - 32]
         else if c = 181 then [924]
         else if c = 223 then [83, 83]
         else if (224 \<le> c \<and> c \<le> 246) \<or> (248 \<le> c \<and> c \<le> 254) then [c - 32]
         else if c = 255 then [376]
         else [c])
      else upper_above U c)"

definition upper :: "ucd \<Rightarrow> pystr \<Rightarrow> pystr" where
  "upper U s = concat (map (upper_char U) s)"

text \<open>\<open>s.replace(old, new)\<close> for one-character \<open>old\<close> and \<open>new\<close>.\<close>

definition replace :: "pychar \<Rightarrow> pychar \<Rightarrow> pystr \<Rightarrow> pystr" where
  "replace old new s = map (\<lambda>c. if c = old then new else c) s"

text \<open>\<open>xs[i]\<close> for \<open>i \<ge> 0\<close>, and \<open>xs[-1]\<close>: both raise \<open>IndexError\<close> out of range.\<close>

definition getitem :: "'a list \<Rightarrow> nat \<Rightarrow> error + 'a" where
  "getitem xs i = (if i < length xs then Inr (xs ! i) else Inl IndexError)"

definition getitem_last :: "'a list \<Rightarrow> error + 'a" where
  "getitem_last xs = (if xs = [] then Inl IndexError else Inr (last xs))"

text \<open>\<open>xs[i:j]\<close> for \<open>0 \<le> i \<le> j\<close>: a slice is cut at the end of the list, it never raises.\<close>

definition slice :: "'a list \<Rightarrow> nat \<Rightarrow> nat \<Rightarrow> 'a list" where
  "slice xs i j = take (j - i) (drop i xs)"

text \<open>\<open>range(start, stop, step)\<close> for a positive \<open>step\<close>.\<close>

definition py_range :: "nat \<Rightarrow> nat \<Rightarrow> nat \<Rightarrow> nat list" where
  "py_range start stop step =
     map (\<lambda>k. start + k * step) [0 ..< (stop - start + step - 1) div step]"

section \<open>Grid generation (\<open>create_grid\<close>, lines 8 to 42)\<close>

text \<open>
  Lines 21 to 23 and 56 to 57 clean their text in the same way: upper-case it, keep the
  characters that \<open>isalpha\<close> accepts, replace \<open>J\<close> by \<open>I\<close>.
\<close>

definition clean :: "ucd \<Rightarrow> pystr \<Rightarrow> pystr" where
  "clean U s = replace (ord CHR ''J'') (ord CHR ''I'') (filter (isalpha U) (upper U s))"

text \<open>The loop of lines 26 to 31, with its two variables \<open>seen\<close> and \<open>unique_keyword\<close>.\<close>

fun unique_loop :: "pystr \<Rightarrow> pychar set \<Rightarrow> pystr \<Rightarrow> pychar set \<times> pystr" where
  "unique_loop [] seen unique_keyword = (seen, unique_keyword)"
| "unique_loop (ch # rest) seen unique_keyword =
     (if ch \<notin> seen then unique_loop rest (insert ch seen) (unique_keyword @ [ch])
      else unique_loop rest seen unique_keyword)"

definition alphabet :: pystr where
  "alphabet = filter (\<lambda>c. c \<noteq> ord CHR ''J'') [ord CHR ''A'' ..< ord CHR ''Z'' + 1]"

definition create_grid :: "ucd \<Rightarrow> pystr \<Rightarrow> error + pystr list" where
  "create_grid U keyword =
     (if keyword = [] \<or> \<not> list_ex (isalpha U) keyword then Inl ValueError_keyword
      else
        (case unique_loop (clean U keyword) {} [] of
           (seen, unique_keyword) \<Rightarrow>
             (let grid_letters = unique_keyword @ filter (\<lambda>c. c \<notin> seen) alphabet
              in Inr (map (\<lambda>i. slice grid_letters i (i + 5)) (py_range 0 25 5)))))"

section \<open>Message preparation (\<open>prepare_message\<close>, lines 45 to 93)\<close>

text \<open>
  The parameter is annotated \<open>str\<close>; the \<open>isinstance\<close> test of line 52 is the type of
  the argument here.
\<close>

definition filler :: "pychar \<Rightarrow> pychar" where
  "filler a = (if a = ord CHR ''X'' then ord CHR ''Z'' else ord CHR ''X'')"

text \<open>
  The \<open>while\<close> loop of lines 65 to 80 with its cursor \<open>i\<close> and its buffer
  \<open>prepared_chars\<close>. \<open>b\<close> is \<open>None\<close> when the cursor is on the last character.
\<close>

function separate_loop :: "pystr \<Rightarrow> nat \<Rightarrow> pystr \<Rightarrow> error + pystr" where
  "separate_loop cleaned i prepared_chars =
     (if i < length cleaned then
        (case getitem cleaned i of
           Inl e \<Rightarrow> Inl e
         | Inr a \<Rightarrow>
            (case (if i + 1 < length cleaned then map_sum id Some (getitem cleaned (i + 1))
                   else Inr None) of
               Inl e \<Rightarrow> Inl e
             | Inr None \<Rightarrow> separate_loop cleaned (i + 1) (prepared_chars @ [a])
             | Inr (Some b) \<Rightarrow>
                 if a = b then separate_loop cleaned (i + 1) (prepared_chars @ [a, filler a])
                 else separate_loop cleaned (i + 2) (prepared_chars @ [a, b])))
      else Inr prepared_chars)"
  by pat_completeness auto
termination
  by (relation "measure (\<lambda>(cleaned, i, prepared_chars). length cleaned - i)") auto

text \<open>Lines 83 to 85: an odd buffer gets one more filler, chosen from its last character.\<close>

definition pad :: "pystr \<Rightarrow> error + pystr" where
  "pad prepared_chars =
     (if length prepared_chars mod 2 = 1 then
        (case getitem_last prepared_chars of
           Inl e \<Rightarrow> Inl e
         | Inr lst \<Rightarrow> Inr (prepared_chars @ [filler lst]))
      else Inr prepared_chars)"

text \<open>Lines 88 to 93: the slices of width two, of which those of length two are kept.\<close>

definition digraphs_of :: "pystr \<Rightarrow> pystr list" where
  "digraphs_of prepared_chars =
     filter (\<lambda>dg. length dg = 2)
       (map (\<lambda>i. slice prepared_chars i (i + 2)) (py_range 0 (length prepared_chars) 2))"

definition prepare_message :: "ucd \<Rightarrow> pystr \<Rightarrow> error + pystr list" where
  "prepare_message U message_text =
     (let cleaned = clean U message_text in
      if cleaned = [] then Inr []
      else
        (case separate_loop cleaned 0 [] of
           Inl e \<Rightarrow> Inl e
         | Inr prepared_chars \<Rightarrow>
            (case pad prepared_chars of
               Inl e \<Rightarrow> Inl e
             | Inr padded \<Rightarrow> Inr (digraphs_of padded))))"

section \<open>Encryption (\<open>find_coordinates\<close>, \<open>encrypt_pair\<close>, \<open>playfair_encrypt\<close>)\<close>

text \<open>
  The two nested \<open>for\<close> loops of lines 118 to 121 visit the positions of \<open>range(5)\<close> by
  \<open>range(5)\<close> in row-major order and return at the first match; line 123 raises when
  there is none. \<open>grid[r][c]\<close> raises \<open>IndexError\<close> on a grid that is too small.
\<close>

fun find_scan :: "pystr list \<Rightarrow> pychar \<Rightarrow> (nat \<times> nat) list \<Rightarrow> error + nat \<times> nat" where
  "find_scan grid ch [] = Inl (ValueError_not_found ch)"
| "find_scan grid ch ((r, c) # rest) =
     (case getitem grid r of
        Inl e \<Rightarrow> Inl e
      | Inr row \<Rightarrow>
         (case getitem row c of
            Inl e \<Rightarrow> Inl e
          | Inr x \<Rightarrow> if x = ch then Inr (r, c) else find_scan grid ch rest))"

definition find_coordinates :: "pystr list \<Rightarrow> pychar \<Rightarrow> error + nat \<times> nat" where
  "find_coordinates grid ch =
     find_scan grid ch (List.product (py_range 0 5 1) (py_range 0 5 1))"

text \<open>\<open>grid[r][c]\<close> of lines 155 and 156.\<close>

definition grid_at :: "pystr list \<Rightarrow> nat \<Rightarrow> nat \<Rightarrow> error + pychar" where
  "grid_at grid r c = (case getitem grid r of Inl e \<Rightarrow> Inl e | Inr row \<Rightarrow> getitem row c)"

definition encrypt_pair :: "pystr list \<Rightarrow> pystr \<Rightarrow> error + pystr" where
  "encrypt_pair grid digraph =
     (case getitem digraph 0 of Inl e \<Rightarrow> Inl e | Inr char1 \<Rightarrow>
     (case getitem digraph 1 of Inl e \<Rightarrow> Inl e | Inr char2 \<Rightarrow>
     (case find_coordinates grid char1 of Inl e \<Rightarrow> Inl e | Inr (r1, c1) \<Rightarrow>
     (case find_coordinates grid char2 of Inl e \<Rightarrow> Inl e | Inr (r2, c2) \<Rightarrow>
        (let (new_r1, new_c1, new_r2, new_c2) =
               (if r1 = r2 then (r1, (c1 + 1) mod 5, r2, (c2 + 1) mod 5)
                else if c1 = c2 then ((r1 + 1) mod 5, c1, (r2 + 1) mod 5, c2)
                else (r1, c2, r2, c1))
         in (case grid_at grid new_r1 new_c1 of Inl e \<Rightarrow> Inl e | Inr encrypted_char1 \<Rightarrow>
            (case grid_at grid new_r2 new_c2 of Inl e \<Rightarrow> Inl e | Inr encrypted_char2 \<Rightarrow>
               Inr [encrypted_char1, encrypted_char2])))))))"

text \<open>
  The list comprehension of line 176 encrypts the digraphs from left to right; the
  first exception ends it.
\<close>

fun encrypt_all :: "pystr list \<Rightarrow> pystr list \<Rightarrow> error + pystr list" where
  "encrypt_all grid [] = Inr []"
| "encrypt_all grid (dg # rest) =
     (case encrypt_pair grid dg of
        Inl e \<Rightarrow> Inl e
      | Inr ct \<Rightarrow>
         (case encrypt_all grid rest of Inl e \<Rightarrow> Inl e | Inr cts \<Rightarrow> Inr (ct # cts)))"

definition playfair_encrypt :: "ucd \<Rightarrow> pystr \<Rightarrow> pystr \<Rightarrow> error + pystr" where
  "playfair_encrypt U keyword message_text =
     (case create_grid U keyword of
        Inl e \<Rightarrow> Inl e
      | Inr grid \<Rightarrow>
         (case prepare_message U message_text of
            Inl e \<Rightarrow> Inl e
          | Inr digraphs \<Rightarrow>
             if digraphs = [] then Inr []
             else (case encrypt_all grid digraphs of
                     Inl e \<Rightarrow> Inl e
                   | Inr ciphertext_digraphs \<Rightarrow> Inr (concat ciphertext_digraphs))))"

section \<open>Notions the properties are stated with\<close>

text \<open>
  A grid as the encoder expects it: five rows of five letters, all 25 different.
\<close>

definition wf_grid :: "pystr list \<Rightarrow> bool" where
  "wf_grid grid =
     (length grid = 5 \<and> list_all (\<lambda>row. length row = 5) grid \<and> distinct (concat grid))"

text \<open>The grid of \<open>setUp\<close> in \<open>test_playfair_cipher.py\<close> (keyword \<open>MONARCHY\<close>).\<close>

definition grid_monarchy :: "pystr list" where
  "grid_monarchy = map str [''MONAR'', ''CHYBD'', ''EFGIK'', ''LPQST'', ''UVWXZ'']"

text \<open>The grid of the keyword \<open>PLAYFAIR\<close>.\<close>

definition grid_playfair :: "pystr list" where
  "grid_playfair = map str [''PLAYF'', ''IRBCD'', ''EGHKM'', ''NOQST'', ''UVWXZ'']"

text \<open>
  The database cut off after the tabulated code points: no letter and no upper-casing
  beyond them. Evaluations on Latin-1 input do not depend on the cut.
\<close>

definition ucd_latin1 :: ucd where
  "ucd_latin1 = \<lparr>alpha_above = (\<lambda>c. False), upper_above = (\<lambda>c. [c])\<rparr>"


definition ascii :: "pystr \<Rightarrow> bool" where
  "ascii s = list_all (\<lambda>c. c < 128) s"

text \<open>
  Section 4.2 of the specification in its own words, on the cleaned text: the scan
  (a letter equal to its successor is followed by a filler and the successor is looked
  at again; other letters go two by two; a last letter goes alone), the padding of an
  odd buffer, and the split into consecutive pairs.
\<close>

fun spec_scan :: "pystr \<Rightarrow> pystr" where
  "spec_scan [] = []"
| "spec_scan [a] = [a]"
| "spec_scan (a # b # rest) =
     (if a = b then a # filler a # spec_scan (b # rest) else a # b # spec_scan rest)"

definition spec_pad :: "pystr \<Rightarrow> pystr" where
  "spec_pad buf = (if odd (length buf) then buf @ [filler (last buf)] else buf)"

fun spec_pairs :: "pystr \<Rightarrow> pystr list" where
  "spec_pairs (a # b # rest) = [a, b] # spec_pairs rest"
| "spec_pairs _ = []"

definition spec_normalize :: "pystr \<Rightarrow> pystr list" where
  "spec_normalize cleaned = spec_pairs (spec_pad (spec_scan cleaned))"

text \<open>
  Step 2 of section 4.1 in its own words: each letter's first occurrence is kept, later
  repeats are discarded.
\<close>

fun spec_unique :: "pystr \<Rightarrow> pystr" where
  "spec_unique [] = []"
| "spec_unique (x # xs) = x # filter (\<lambda>y. y \<noteq> x) (spec_unique xs)"

section \<open>Auxiliary facts\<close>

lemma getitem_in_range: "i < length xs \<Longrightarrow> getitem xs i = Inr (xs ! i)"
  by (simp add: getitem_def)

lemma py_range_5: "py_range 0 5 1 = [0 ..< 5]"
  by (simp add: py_range_def)

lemma py_range_25: "py_range 0 25 5 = [0, 5, 10, 15, 20]"
  by (simp add: py_range_def upt_rec)

lemma concat_uniform_nth:
  "list_all (\<lambda>row. length row = n) g \<Longrightarrow> r < length g \<Longrightarrow> c < n \<Longrightarrow>
     r * n + c < length (concat g) \<and> concat g ! (r * n + c) = g ! r ! c"
proof (induction g arbitrary: r)
  case Nil
  then show ?case by simp
next
  case (Cons row g)
  show ?case
  proof (cases r)
    case 0
    with Cons.prems show ?thesis by (simp add: nth_append)
  next
    case (Suc r')
    with Cons.prems have "r' < length g" and "list_all (\<lambda>row. length row = n) g" by simp_all
    from Cons.IH [OF this(2) this(1) \<open>c < n\<close>] Cons.prems Suc show ?thesis
      by (simp add: nth_append)
  qed
qed

lemma grid_position_unique:
  assumes "wf_grid g" "r < 5" "c < 5" "r' < 5" "c' < 5" "g ! r ! c = g ! r' ! c'"
  shows "r = r' \<and> c = c'"
proof -
  from assms(1) have rows: "list_all (\<lambda>row. length row = 5) g" and len: "length g = 5"
    and dist: "distinct (concat g)" by (simp_all add: wf_grid_def)
  from concat_uniform_nth [OF rows, of r c] assms len
  have a: "r * 5 + c < length (concat g)" "concat g ! (r * 5 + c) = g ! r ! c" by simp_all
  from concat_uniform_nth [OF rows, of r' c'] assms len
  have b: "r' * 5 + c' < length (concat g)" "concat g ! (r' * 5 + c') = g ! r' ! c'" by simp_all
  from a b assms(6) have "concat g ! (r * 5 + c) = concat g ! (r' * 5 + c')" by simp
  with nth_eq_iff_index_eq [OF dist a(1) b(1)] have "r * 5 + c = r' * 5 + c'" by simp
  then have eq: "c + r * 5 = c' + r' * 5" by (simp add: add.commute)
  from assms(3) have "(c + r * 5) div 5 = r" by simp
  moreover from assms(5) have "(c' + r' * 5) div 5 = r'" by simp
  ultimately have "r = r'" using eq by simp
  with eq show ?thesis by simp
qed

lemma grid_at_in_range:
  "wf_grid g \<Longrightarrow> r < 5 \<Longrightarrow> c < 5 \<Longrightarrow> grid_at g r c = Inr (g ! r ! c)"
  by (simp add: grid_at_def getitem_def wf_grid_def list_all_length)

lemma find_scan_first:
  assumes "wf_grid g" "r < 5" "c < 5"
  shows "list_all (\<lambda>(r', c'). r' < 5 \<and> c' < 5) ps \<Longrightarrow> (r, c) \<in> set ps \<Longrightarrow>
     find_scan g (g ! r ! c) ps = Inr (r, c)"
proof (induction ps)
  case Nil
  then show ?case by simp
next
  case (Cons p ps)
  obtain r' c' where p: "p = (r', c')" by (cases p)
  with Cons.prems have in_range: "r' < 5" "c' < 5" by simp_all
  with assms(1) have at: "getitem g r' = Inr (g ! r')" "getitem (g ! r') c' = Inr (g ! r' ! c')"
    by (simp_all add: getitem_def wf_grid_def list_all_length)
  show ?case
  proof (cases "g ! r' ! c' = g ! r ! c")
    case True
    with grid_position_unique [OF assms(1) in_range assms(2,3)] have "r' = r" "c' = c" by simp_all
    with p at show ?thesis by simp
  next
    case False
    then have "(r, c) \<noteq> (r', c')" by auto
    with Cons.prems p have "(r, c) \<in> set ps" by auto
    with Cons.IH Cons.prems have "find_scan g (g ! r ! c) ps = Inr (r, c)" by simp
    with p at False show ?thesis by simp
  qed
qed

lemma find_coordinates_at:
  assumes "wf_grid g" "r < 5" "c < 5"
  shows "find_coordinates g (g ! r ! c) = Inr (r, c)"
proof -
  have "list_all (\<lambda>(r', c'). r' < 5 \<and> c' < 5) (List.product [0 ..< 5] [0 ..< 5])"
    by (simp add: list_all_iff)
  moreover from assms have "(r, c) \<in> set (List.product [0 ..< 5] [0 ..< 5])"
    by simp
  ultimately show ?thesis
    unfolding find_coordinates_def py_range_5
    by (rule find_scan_first [OF assms])
qed

lemma length_concat_uniform:
  "list_all (\<lambda>row. length row = n) g \<Longrightarrow> length (concat g) = length g * n"
  by (induction g) simp_all

lemma grid_letter_position:
  assumes "wf_grid g" "a \<in> set (concat g)"
  shows "\<exists>r c. r < 5 \<and> c < 5 \<and> g ! r ! c = a"
proof -
  from assms(1) have rows: "list_all (\<lambda>row. length row = 5) g" and len: "length g = 5"
    by (simp_all add: wf_grid_def)
  from length_concat_uniform [OF rows] len have n: "length (concat g) = 25" by simp
  from assms(2) obtain k where k: "k < length (concat g)" "concat g ! k = a"
    unfolding in_set_conv_nth by blast
  from k(1) n have r: "k div 5 < 5" and c: "k mod 5 < 5" by simp_all
  from concat_uniform_nth [OF rows, of "k div 5" "k mod 5"] r len
  have "concat g ! (k div 5 * 5 + k mod 5) = g ! (k div 5) ! (k mod 5)" by simp
  with k(2) have "g ! (k div 5) ! (k mod 5) = a" by simp
  with r c show ?thesis by blast
qed

lemma encrypt_pair_at:
  assumes "wf_grid grid" "r1 < 5" "c1 < 5" "r2 < 5" "c2 < 5"
  shows "encrypt_pair grid [grid ! r1 ! c1, grid ! r2 ! c2] =
     Inr (if r1 = r2 then [grid ! r1 ! ((c1 + 1) mod 5), grid ! r2 ! ((c2 + 1) mod 5)]
          else if c1 = c2 then [grid ! ((r1 + 1) mod 5) ! c1, grid ! ((r2 + 1) mod 5) ! c2]
          else [grid ! r1 ! c2, grid ! r2 ! c1])"
proof -
  have f1: "find_coordinates grid (grid ! r1 ! c1) = Inr (r1, c1)"
    by (rule find_coordinates_at [OF assms(1-3)])
  have f2: "find_coordinates grid (grid ! r2 ! c2) = Inr (r2, c2)"
    by (rule find_coordinates_at [OF assms(1) assms(4,5)])
  have at: "\<And>r c. r < 5 \<Longrightarrow> c < 5 \<Longrightarrow> grid_at grid r c = Inr (grid ! r ! c)"
    by (rule grid_at_in_range [OF assms(1)])
  show ?thesis
  proof (cases "r1 = r2")
    case True
    then show ?thesis using f1 f2 assms at [of r1 "(c1 + 1) mod 5"] at [of r2 "(c2 + 1) mod 5"]
      by (simp add: encrypt_pair_def getitem_def)
  next
    case rows: False
    show ?thesis
    proof (cases "c1 = c2")
      case True
      then show ?thesis
        using rows f1 f2 assms at [of "(r1 + 1) mod 5" c1] at [of "(r2 + 1) mod 5" c2]
        by (simp add: encrypt_pair_def getitem_def)
    next
      case False
      then show ?thesis
        using rows f1 f2 assms at [of r1 c2] at [of r2 c1]
        by (simp add: encrypt_pair_def getitem_def)
    qed
  qed
qed


lemma succ_mod5: "a < 5 \<Longrightarrow> (a + 1) mod 5 = (if a = 4 then 0 else a + (1::nat))"
  by simp

lemma succ_mod5_inj:
  assumes "a < 5" "b < 5" "(a + 1) mod 5 = (b + 1) mod (5::nat)"
  shows "a = b"
  using assms(3) unfolding succ_mod5 [OF assms(1)] succ_mod5 [OF assms(2)]
  by (simp split: if_splits)

lemma encrypt_pair_rectangle_twice:
  assumes "wf_grid grid" "r1 < 5" "c1 < 5" "r2 < 5" "c2 < 5" "r1 \<noteq> r2" "c1 \<noteq> c2"
  shows "encrypt_pair grid [grid ! r1 ! c1, grid ! r2 ! c2] = Inr [grid ! r1 ! c2, grid ! r2 ! c1]"
    and "encrypt_pair grid [grid ! r1 ! c2, grid ! r2 ! c1] = Inr [grid ! r1 ! c1, grid ! r2 ! c2]"
proof -
  show "encrypt_pair grid [grid ! r1 ! c1, grid ! r2 ! c2] = Inr [grid ! r1 ! c2, grid ! r2 ! c1]"
    using encrypt_pair_at [OF assms(1,2,3,4,5)] assms(6,7) by simp
  from assms(7) have "c2 \<noteq> c1" by simp
  then show "encrypt_pair grid [grid ! r1 ! c2, grid ! r2 ! c1] = Inr [grid ! r1 ! c1, grid ! r2 ! c2]"
    using encrypt_pair_at [OF assms(1) assms(2) assms(5) assms(4) assms(3)] assms(6) by simp
qed

lemma encrypt_pair_distinct_at:
  assumes "wf_grid grid" "r1 < 5" "c1 < 5" "r2 < 5" "c2 < 5" "grid ! r1 ! c1 \<noteq> grid ! r2 ! c2"
  shows "\<exists>x y. encrypt_pair grid [grid ! r1 ! c1, grid ! r2 ! c2] = Inr [x, y] \<and> x \<noteq> y"
proof -
  note u = grid_position_unique [OF assms(1)]
  have m: "\<And>a. a < 5 \<Longrightarrow> (a + 1) mod 5 < (5::nat)" by simp
  show ?thesis
  proof (cases "r1 = r2")
    case True
    with assms(6) have "c1 \<noteq> c2" by blast
    with succ_mod5_inj [OF assms(3,5)] have "(c1 + 1) mod 5 \<noteq> (c2 + 1) mod 5" by blast
    with u [OF assms(2) m [OF assms(3)] assms(4) m [OF assms(5)]]
    have "grid ! r1 ! ((c1 + 1) mod 5) \<noteq> grid ! r2 ! ((c2 + 1) mod 5)" by blast
    with True encrypt_pair_at [OF assms(1-5)] show ?thesis by simp
  next
    case rows: False
    show ?thesis
    proof (cases "c1 = c2")
      case True
      from rows succ_mod5_inj [OF assms(2,4)] have "(r1 + 1) mod 5 \<noteq> (r2 + 1) mod 5" by blast
      with u [OF m [OF assms(2)] assms(3) m [OF assms(4)] assms(5)]
      have "grid ! ((r1 + 1) mod 5) ! c1 \<noteq> grid ! ((r2 + 1) mod 5) ! c2" by blast
      with True rows encrypt_pair_at [OF assms(1-5)] show ?thesis by simp
    next
      case False
      from u [OF assms(2) assms(5) assms(4) assms(3)] rows
      have "grid ! r1 ! c2 \<noteq> grid ! r2 ! c1" by blast
      with False rows encrypt_pair_at [OF assms(1-5)] show ?thesis by simp
    qed
  qed
qed

section \<open>The loop of the normalizer against the scan of the specification\<close>

declare separate_loop.simps [simp del]

lemma separate_loop_eq:
  "i \<le> length cleaned \<Longrightarrow>
     separate_loop cleaned i buf = Inr (buf @ spec_scan (drop i cleaned))"
proof (induction cleaned i buf rule: separate_loop.induct)
  case (1 cleaned i buf)
  show ?case
  proof (cases "i < length cleaned")
    case False
    with "1.prems" show ?thesis by (subst separate_loop.simps) simp
  next
    case True
    then have d: "drop i cleaned = cleaned ! i # drop (Suc i) cleaned"
      by (simp add: Cons_nth_drop_Suc)
    have g: "getitem cleaned i = Inr (cleaned ! i)" using True by (simp add: getitem_def)
    show ?thesis
    proof (cases "i + 1 < length cleaned")
      case False
      with True have e: "drop (Suc i) cleaned = []" by simp
      from "1.IH"(1) [OF True g] False True
      have "separate_loop cleaned (i + 1) (buf @ [cleaned ! i])
              = Inr ((buf @ [cleaned ! i]) @ spec_scan (drop (i + 1) cleaned))" by simp
      with True False g d e show ?thesis by (subst separate_loop.simps) simp
    next
      case succ: True
      then have d2: "drop (Suc i) cleaned = cleaned ! (i + 1) # drop (i + 2) cleaned"
        by (simp add: Cons_nth_drop_Suc)
      have g2: "getitem cleaned (i + 1) = Inr (cleaned ! (i + 1))"
        using succ by (simp add: getitem_def)
      show ?thesis
      proof (cases "cleaned ! i = cleaned ! (i + 1)")
        case True
        from "1.IH"(2) [OF \<open>i < length cleaned\<close> g, of "Some (cleaned ! (i + 1))" "cleaned ! (i + 1)"] succ g2 True
        have "separate_loop cleaned (i + 1) (buf @ [cleaned ! i, filler (cleaned ! i)])
              = Inr ((buf @ [cleaned ! i, filler (cleaned ! i)]) @ spec_scan (drop (i + 1) cleaned))"
          by simp
        with \<open>i < length cleaned\<close> succ g g2 d d2 True show ?thesis
          by (subst separate_loop.simps) simp
      next
        case False
        from "1.IH"(3) [OF \<open>i < length cleaned\<close> g, of "Some (cleaned ! (i + 1))" "cleaned ! (i + 1)"] succ g2 False
        have "separate_loop cleaned (i + 2) (buf @ [cleaned ! i, cleaned ! (i + 1)])
              = Inr ((buf @ [cleaned ! i, cleaned ! (i + 1)]) @ spec_scan (drop (i + 2) cleaned))"
          by simp
        with \<open>i < length cleaned\<close> succ g g2 d d2 False show ?thesis
          by (subst separate_loop.simps) simp
      qed
    qed
  qed
qed

lemma pad_eq: "pad buf = Inr (spec_pad buf)"
proof (cases "odd (length buf)")
  case True
  then have "length buf mod 2 = 1" by (simp add: odd_iff_mod_2_eq_one)
  moreover from True have "buf \<noteq> []" by auto
  ultimately show ?thesis using True by (simp add: pad_def spec_pad_def getitem_last_def)
next
  case False
  then have "length buf mod 2 \<noteq> 1" by (simp add: odd_iff_mod_2_eq_one)
  with False show ?thesis by (simp add: pad_def spec_pad_def)
qed

lemma py_range_step2: "py_range 0 n 2 = map (\<lambda>k. 2 * k) [0 ..< (n + 1) div 2]"
  by (simp add: py_range_def mult.commute)

lemma digraphs_of_eq: "digraphs_of p = spec_pairs p"
proof (induction p rule: spec_pairs.induct)
  case (1 a b rest)
  have n: "(length (a # b # rest) + 1) div 2 = Suc ((length rest + 1) div 2)" by simp
  have u: "[0 ..< Suc ((length rest + 1) div 2)] = 0 # map Suc [0 ..< (length rest + 1) div 2]"
    by (simp only: map_Suc_upt upt_conv_Cons zero_less_Suc)
  from "1.IH" have "spec_pairs rest =
      filter (\<lambda>dg. length dg = 2)
        (map (\<lambda>k. slice rest (2 * k) (2 * k + 2)) [0 ..< (length rest + 1) div 2])"
    by (simp add: digraphs_of_def py_range_step2 comp_def)
  then show ?case
    unfolding digraphs_of_def py_range_step2 n u
    by (simp add: slice_def comp_def)
qed (simp_all add: digraphs_of_def py_range_def slice_def)

lemma prepare_message_eq: "prepare_message U s = Inr (spec_normalize (clean U s))"
  by (simp add: prepare_message_def Let_def separate_loop_eq pad_eq digraphs_of_eq
      spec_normalize_def spec_pad_def)


lemma spec_pad_Cons2: "spec_pad (a # b # ys) = a # b # spec_pad ys"
  by (cases ys) (simp_all add: spec_pad_def)



lemma spec_normalize_run: "spec_normalize (replicate n a) = replicate n [a, filler a]"
proof (induction n)
  case 0
  show ?case by (simp add: spec_normalize_def spec_pad_def)
next
  case (Suc n)
  show ?case
  proof (cases n)
    case 0
    then show ?thesis by (simp add: spec_normalize_def spec_pad_def)
  next
    case (Suc m)
    with Suc.IH show ?thesis by (simp add: spec_normalize_def spec_pad_Cons2)
  qed
qed

lemma separate_loop_repeat_step:
  assumes "i + 1 < length cleaned" "cleaned ! i = cleaned ! (i + 1)"
  shows "separate_loop cleaned i buf =
           separate_loop cleaned (i + 1) (buf @ [cleaned ! i, filler (cleaned ! i)])"
  using assms by (subst separate_loop.simps) (simp add: getitem_def)

lemma clean_hello:
  "clean U (str ''HELLO'') = str ''HELLO''"
  by (simp add: clean_def upper_def upper_char_def isalpha_def replace_def str_def ord_def)

section \<open>The character tables on Latin-1\<close>







lemma prepare_hello: "prepare_message U (str ''HELLO'') = Inr [str ''HE'', str ''LX'', str ''LO'']"
  by (simp add: prepare_message_eq clean_hello)
     (simp add: spec_normalize_def spec_pad_def filler_def str_def ord_def)

section \<open>Grid construction and normalization on ASCII input\<close>

lemma unique_loop_eq:
  "unique_loop xs seen acc = (seen \<union> set xs, acc @ filter (\<lambda>y. y \<notin> seen) (spec_unique xs))"
proof (induction xs arbitrary: seen acc)
  case Nil
  show ?case by simp
next
  case (Cons x xs)
  show ?case
  proof (cases "x \<in> seen")
    case True
    then have "filter (\<lambda>y. y \<notin> seen \<and> y \<noteq> x) (spec_unique xs) = filter (\<lambda>y. y \<notin> seen) (spec_unique xs)"
      by (intro filter_cong) auto
    with True Cons.IH [of seen acc] show ?thesis by (simp add: insert_absorb conj_commute)
  next
    case False
    have "filter (\<lambda>y. y \<notin> insert x seen) (spec_unique xs) = filter (\<lambda>y. y \<notin> seen \<and> y \<noteq> x) (spec_unique xs)"
      by (intro filter_cong) auto
    with False Cons.IH [of "insert x seen" "acc @ [x]"] show ?thesis by (simp add: conj_commute)
  qed
qed

lemma set_spec_unique: "set (spec_unique xs) = set xs"
  by (induction xs) auto

lemma distinct_spec_unique: "distinct (spec_unique xs)"
  by (induction xs) (simp_all add: set_spec_unique)

lemma alphabet_letters: "alphabet = str ''ABCDEFGHIKLMNOPQRSTUVWXYZ''"
  by code_simp

lemma distinct_alphabet: "distinct alphabet"
  unfolding alphabet_letters by code_simp

lemma length_alphabet: "length alphabet = 25"
  unfolding alphabet_letters by (simp add: str_def)

lemma in_alphabet: "c \<in> set alphabet \<longleftrightarrow> 65 \<le> c \<and> c \<le> 90 \<and> c \<noteq> 74"
proof -
  have "ord CHR ''A'' = 65" "ord CHR ''Z'' + 1 = 91" "ord CHR ''J'' = 74"
    by (simp_all add: ord_def)
  then have "set alphabet = {c \<in> {65 ..< 91}. c \<noteq> 74}"
    unfolding alphabet_def set_filter set_upt by (simp only:)
  then show ?thesis by (simp only: mem_Collect_eq atLeastLessThan_iff) linarith
qed

lemma ascii_upper_alpha:
  assumes "c < 128" "d \<in> set (upper_char U c)" "isalpha U d"
  shows "65 \<le> d \<and> d \<le> 90"
proof (cases "97 \<le> c \<and> c \<le> 122")
  case True
  with assms(1,2) have "d = c - 32" by (simp add: upper_char_def)
  with True show ?thesis by linarith
next
  case False
  with assms(1) have "upper_char U c = [c]" by (auto simp: upper_char_def)
  with assms(2) have "d = c" by simp
  with assms(1,3) False show ?thesis by (simp add: isalpha_def)
qed

lemma take_drop_step: "take n (drop i xs) @ drop (i + n) xs = drop i xs"
  using append_take_drop_id [of n "drop i xs"] by (simp add: add.commute)

lemma grid_of_letters:
  assumes "length xs = 25"
  shows "concat (map (\<lambda>i. slice xs i (i + 5)) (py_range 0 25 5)) = xs"
    and "length (map (\<lambda>i. slice xs i (i + 5)) (py_range 0 25 5)) = 5"
    and "list_all (\<lambda>row. length row = 5) (map (\<lambda>i. slice xs i (i + 5)) (py_range 0 25 5))"
proof -
  from assms have e: "drop 25 xs = []" by simp
  have "take 5 (drop 20 xs) = drop 20 xs" using take_drop_step [of 5 20 xs] e by simp
  moreover have "take 5 (drop 15 xs) @ drop 20 xs = drop 15 xs" using take_drop_step [of 5 15 xs] by simp
  moreover have "take 5 (drop 10 xs) @ drop 15 xs = drop 10 xs" using take_drop_step [of 5 10 xs] by simp
  moreover have "take 5 (drop 5 xs) @ drop 10 xs = drop 5 xs" using take_drop_step [of 5 5 xs] by simp
  moreover have "take 5 xs @ drop 5 xs = xs" by simp
  ultimately show "concat (map (\<lambda>i. slice xs i (i + 5)) (py_range 0 25 5)) = xs"
    by (simp add: py_range_25 slice_def)
  show "length (map (\<lambda>i. slice xs i (i + 5)) (py_range 0 25 5)) = 5"
    by (simp add: py_range_25)
  from assms show "list_all (\<lambda>row. length row = 5) (map (\<lambda>i. slice xs i (i + 5)) (py_range 0 25 5))"
    by (simp add: py_range_25 slice_def)
qed

lemma clean_ascii_alphabet:
  assumes "ascii s"
  shows "set (clean U s) \<subseteq> set alphabet"
proof
  fix x assume "x \<in> set (clean U s)"
  then obtain d where d: "d \<in> set (upper U s)" "isalpha U d" "x = (if d = 74 then 73 else d)"
    by (auto simp: clean_def replace_def ord_def)
  from d(1) obtain c where c: "c \<in> set s" "d \<in> set (upper_char U c)" by (auto simp: upper_def)
  from c(1) assms have "c < 128" by (simp add: ascii_def list_all_iff)
  from ascii_upper_alpha [OF this c(2) d(2)] d(3) show "x \<in> set alphabet"
    by (simp add: in_alphabet)
qed

lemma grid_letters_ascii:
  assumes "set k \<subseteq> set alphabet"
  shows "distinct (spec_unique k @ filter (\<lambda>c. c \<notin> set k) alphabet)"
    and "set (spec_unique k @ filter (\<lambda>c. c \<notin> set k) alphabet) = set alphabet"
    and "length (spec_unique k @ filter (\<lambda>c. c \<notin> set k) alphabet) = 25"
proof -
  let ?xs = "spec_unique k @ filter (\<lambda>c. c \<notin> set k) alphabet"
  show d: "distinct ?xs"
    using distinct_alphabet by (auto simp: distinct_spec_unique set_spec_unique)
  show s: "set ?xs = set alphabet"
    using assms by (auto simp: set_spec_unique)
  from d have "length ?xs = card (set ?xs)" by (simp only: distinct_card)
  also from s have "\<dots> = card (set alphabet)" by simp
  also from distinct_alphabet have "\<dots> = length alphabet" by (simp only: distinct_card)
  finally show "length ?xs = 25" by (simp only: length_alphabet)
qed

lemma create_grid_ascii:
  assumes "ascii keyword" "list_ex (isalpha U) keyword"
  shows "\<exists>grid. create_grid U keyword = Inr grid \<and> wf_grid grid
           \<and> set (concat grid) = set alphabet
           \<and> concat grid = spec_unique (clean U keyword)
                 @ filter (\<lambda>c. c \<notin> set (clean U keyword)) alphabet"
proof -
  let ?k = "clean U keyword"
  let ?xs = "spec_unique ?k @ filter (\<lambda>c. c \<notin> set ?k) alphabet"
  let ?g = "map (\<lambda>i. slice ?xs i (i + 5)) (py_range 0 25 5)"
  note gl = grid_letters_ascii [OF clean_ascii_alphabet [OF assms(1), of U]]
  note g = grid_of_letters [OF gl(3)]
  from assms(2) have ne: "keyword \<noteq> []" by auto
  have "unique_loop ?k {} [] = (set ?k, spec_unique ?k)"
    by (simp add: unique_loop_eq)
  with assms(2) ne have c: "create_grid U keyword = Inr ?g"
    by (simp add: create_grid_def)
  from g gl(1) have w: "wf_grid ?g" by (simp add: wf_grid_def)
  from g(1) gl(2) have s: "set (concat ?g) = set alphabet" by (simp only:)
  from c w s g(1) show ?thesis by (intro exI [of _ ?g] conjI)
qed

lemma filler_cases: "filler a = 88 \<or> filler a = 90"
  by (simp add: filler_def ord_def)

lemma set_spec_scan: "set (spec_scan xs) \<subseteq> set xs \<union> {88, 90}"
proof (induction xs rule: spec_scan.induct)
  case (3 a b rest)
  then show ?case using filler_cases [of a] by auto
qed simp_all

lemma set_spec_pad: "set (spec_pad buf) \<subseteq> set buf \<union> {88, 90}"
  using filler_cases [of "last buf"] by (auto simp: spec_pad_def)

lemma set_spec_pairs: "d \<in> set (spec_pairs p) \<Longrightarrow> set d \<subseteq> set p"
  by (induction p rule: spec_pairs.induct) auto

lemma prepare_message_ascii:
  assumes "ascii s"
  shows "\<exists>ds. prepare_message U s = Inr ds \<and> (\<forall>d \<in> set ds. set d \<subseteq> set alphabet)"
proof -
  have xz: "{88, 90} \<subseteq> set alphabet" by (simp add: in_alphabet)
  have "\<forall>d \<in> set (spec_normalize (clean U s)). set d \<subseteq> set alphabet"
  proof
    fix d assume "d \<in> set (spec_normalize (clean U s))"
    then have "set d \<subseteq> set (spec_pad (spec_scan (clean U s)))"
      unfolding spec_normalize_def by (rule set_spec_pairs)
    also have "\<dots> \<subseteq> set (spec_scan (clean U s)) \<union> {88, 90}" by (rule set_spec_pad)
    also have "\<dots> \<subseteq> set (clean U s) \<union> {88, 90}" using set_spec_scan [of "clean U s"] by blast
    also have "\<dots> \<subseteq> set alphabet" using clean_ascii_alphabet [OF assms, of U] xz by blast
    finally show "set d \<subseteq> set alphabet" .
  qed
  then show ?thesis by (simp add: prepare_message_eq)
qed

section \<open>Evaluations\<close>

lemma create_grid_e_acute:
  "create_grid U [233] =
     Inr [201 # str ''ABCD'', str ''EFGHI'', str ''KLMNO'', str ''PQRST'', str ''UVWXY'']"
  by code_simp

lemma prepare_e_acute: "prepare_message U [233] = Inr [[201, ord CHR ''X'']]"
  by code_simp

lemma encrypt_e_acute: "playfair_encrypt U (str ''KEY'') [233] = Inl (ValueError_not_found 201)"
  by code_simp

lemma create_grid_playfair: "create_grid U (str ''PLAYFAIR'') = Inr grid_playfair"
  by code_simp

lemma encrypt_we_are_not_safe:
  "playfair_encrypt U (str ''PLAYFAIR'') (str ''WE ARE NOT SAFE'') = Inr (str ''UHLBNUQNQYPM'')"
  by code_simp






section \<open>Properties of the encoder\<close>

lemma wf_grid_monarchy: "wf_grid grid_monarchy"
  by (simp add: wf_grid_def grid_monarchy_def str_def ord_def)

text \<open>
  C6. On a grid of 25 distinct letters, for the digraph of the letters at positions
  \<open>(r1, c1)\<close> and \<open>(r2, c2)\<close>, \<open>encrypt_pair\<close> returns, in input order: in the
  same row the letters one column to the right, modulo 5 (column 4 wraps to column 0);
  else in the same column the letters one row down, modulo 5 (row 4 wraps to row 0);
  otherwise the letters at \<open>(r1, c2)\<close> and \<open>(r2, c1)\<close>, the rows unchanged.
\<close>

theorem encrypt_pair_rules:
  assumes "wf_grid grid" "r1 < 5" "c1 < 5" "r2 < 5" "c2 < 5"
  shows "encrypt_pair grid [grid ! r1 ! c1, grid ! r2 ! c2] =
     Inr (if r1 = r2 then [grid ! r1 ! ((c1 + 1) mod 5), grid ! r2 ! ((c2 + 1) mod 5)]
          else if c1 = c2 then [grid ! ((r1 + 1) mod 5) ! c1, grid ! ((r2 + 1) mod 5) ! c2]
          else [grid ! r1 ! c2, grid ! r2 ! c1])"
  by (rule encrypt_pair_at [OF assms])

text \<open>
  The rule at work on the grid of the tests: \<open>RA\<close> lies in row 0, \<open>R\<close> in column 4
  wraps to \<open>M\<close> in column 0; \<open>UL\<close> lies in column 0, \<open>U\<close> in row 4 wraps to \<open>M\<close>
  in row 0; \<open>HE\<close> is a rectangle.
\<close>

theorem encrypt_pair_rules_witness:
  "wf_grid grid_monarchy
   \<and> encrypt_pair grid_monarchy (str ''RA'') = Inr (str ''MR'')
   \<and> encrypt_pair grid_monarchy (str ''UL'') = Inr (str ''MU'')
   \<and> encrypt_pair grid_monarchy (str ''HE'') = Inr (str ''CF'')"
proof -
  have "encrypt_pair grid_monarchy (str ''RA'') = Inr (str ''MR'')"
    using encrypt_pair_rules [OF wf_grid_monarchy, of 0 4 0 3]
    by (simp add: grid_monarchy_def str_def ord_def)
  moreover have "encrypt_pair grid_monarchy (str ''UL'') = Inr (str ''MU'')"
    using encrypt_pair_rules [OF wf_grid_monarchy, of 4 0 3 0]
    by (simp add: grid_monarchy_def str_def ord_def)
  moreover have "encrypt_pair grid_monarchy (str ''HE'') = Inr (str ''CF'')"
    using encrypt_pair_rules [OF wf_grid_monarchy, of 1 1 2 0]
    by (simp add: grid_monarchy_def str_def ord_def)
  ultimately show ?thesis using wf_grid_monarchy by simp
qed

text \<open>
  C7. On a grid of 25 distinct letters, a digraph whose two letters are in the grid and
  share neither a row nor a column is returned unchanged by two applications of
  \<open>encrypt_pair\<close>.
\<close>

theorem rectangle_self_inverse:
  assumes "wf_grid grid" "r1 < 5" "c1 < 5" "r2 < 5" "c2 < 5" "r1 \<noteq> r2" "c1 \<noteq> c2"
    and "a = grid ! r1 ! c1" "b = grid ! r2 ! c2"
  shows "(case encrypt_pair grid [a, b] of Inl e \<Rightarrow> Inl e | Inr d \<Rightarrow> encrypt_pair grid d)
           = Inr [a, b]"
  using encrypt_pair_rectangle_twice [OF assms(1-7)] assms(8,9) by simp

theorem rectangle_self_inverse_witness:
  "wf_grid grid_monarchy
   \<and> (case encrypt_pair grid_monarchy (str ''HE'') of
         Inl e \<Rightarrow> Inl e | Inr d \<Rightarrow> encrypt_pair grid_monarchy d) = Inr (str ''HE'')"
  using rectangle_self_inverse [OF wf_grid_monarchy, of 1 1 2 0 "ord CHR ''H''" "ord CHR ''E''"]
    wf_grid_monarchy
  by (simp add: grid_monarchy_def str_def ord_def)

text \<open>
  C10. On a grid of 25 distinct letters, the encryption of a digraph of two different
  letters of the grid is again a digraph of two different letters.
\<close>

theorem encrypt_pair_keeps_distinct:
  assumes "wf_grid grid" "a \<in> set (concat grid)" "b \<in> set (concat grid)" "a \<noteq> b"
  shows "\<exists>x y. encrypt_pair grid [a, b] = Inr [x, y] \<and> x \<noteq> y"
proof -
  from grid_letter_position [OF assms(1,2)] obtain r1 c1
    where p1: "r1 < 5" "c1 < 5" "grid ! r1 ! c1 = a" by blast
  from grid_letter_position [OF assms(1,3)] obtain r2 c2
    where p2: "r2 < 5" "c2 < 5" "grid ! r2 ! c2 = b" by blast
  from assms(4) p1(3) p2(3) have "grid ! r1 ! c1 \<noteq> grid ! r2 ! c2" by simp
  from encrypt_pair_distinct_at [OF assms(1) p1(1,2) p2(1,2) this] p1(3) p2(3)
  show ?thesis by simp
qed

theorem encrypt_pair_keeps_distinct_witness:
  "wf_grid grid_monarchy
   \<and> ord CHR ''A'' \<in> set (concat grid_monarchy) \<and> ord CHR ''R'' \<in> set (concat grid_monarchy)
   \<and> ord CHR ''A'' \<noteq> ord CHR ''R''
   \<and> (\<exists>x y. encrypt_pair grid_monarchy (str ''AR'') = Inr [x, y] \<and> x \<noteq> y)"
proof -
  have m: "ord CHR ''A'' \<in> set (concat grid_monarchy)" "ord CHR ''R'' \<in> set (concat grid_monarchy)"
    "ord CHR ''A'' \<noteq> ord CHR ''R''"
    by (simp_all add: grid_monarchy_def str_def ord_def)
  from encrypt_pair_keeps_distinct [OF wf_grid_monarchy m]
  have "\<exists>x y. encrypt_pair grid_monarchy (str ''AR'') = Inr [x, y] \<and> x \<noteq> y"
    by (simp add: str_def)
  with m wf_grid_monarchy show ?thesis by simp
qed

section \<open>Properties of the normalizer\<close>

text \<open>
  C2. For every input, \<open>prepare_message\<close> is the scan of section 4.2 on the cleaned
  text: its loop, padding and split return exactly what the scan, the padding and the
  pairing of the specification give. When the letter at the cursor equals its successor
  the loop appends the letter and a filler (\<open>Z\<close> after \<open>X\<close>, otherwise \<open>X\<close>) and
  moves the cursor by one, so the successor is looked at again. A cleaned text that is a
  run of \<open>n\<close> equal letters yields \<open>n\<close> digraphs, each that letter with its filler.
\<close>

theorem prepare_message_follows_scan:
  "prepare_message U s = Inr (spec_normalize (clean U s))
   \<and> (\<forall>cleaned i buf. i + 1 < length cleaned \<and> cleaned ! i = cleaned ! (i + 1) \<longrightarrow>
         separate_loop cleaned i buf =
           separate_loop cleaned (i + 1) (buf @ [cleaned ! i, filler (cleaned ! i)]))
   \<and> (\<forall>n a. clean U s = replicate n a \<longrightarrow>
         prepare_message U s = Inr (replicate n [a, filler a]))
   \<and> filler (ord CHR ''X'') = ord CHR ''Z''
   \<and> (\<forall>a. a \<noteq> ord CHR ''X'' \<longrightarrow> filler a = ord CHR ''X'')"
proof (intro conjI allI impI)
  show "prepare_message U s = Inr (spec_normalize (clean U s))" by (rule prepare_message_eq)
next
  fix cleaned :: pystr and i buf
  assume "i + 1 < length cleaned \<and> cleaned ! i = cleaned ! (i + 1)"
  then show "separate_loop cleaned i buf =
           separate_loop cleaned (i + 1) (buf @ [cleaned ! i, filler (cleaned ! i)])"
    using separate_loop_repeat_step by blast
next
  fix n a assume "clean U s = replicate n a"
  then show "prepare_message U s = Inr (replicate n [a, filler a])"
    by (simp add: prepare_message_eq spec_normalize_run)
next
  show "filler (ord CHR ''X'') = ord CHR ''Z''" by (simp add: filler_def)
next
  fix a assume "a \<noteq> ord CHR ''X''"
  then show "filler a = ord CHR ''X''" by (simp add: filler_def)
qed

text \<open>The run \<open>AAA\<close> is read letter by letter: three digraphs \<open>AX\<close>.\<close>

theorem prepare_message_follows_scan_witness:
  "prepare_message ucd_latin1 (str ''AAA'') = Inr [str ''AX'', str ''AX'', str ''AX'']"
proof -
  have "clean ucd_latin1 (str ''AAA'') = replicate 3 (ord CHR ''A'')"
    by (simp add: clean_def upper_def upper_char_def isalpha_def replace_def str_def ord_def
        eval_nat_numeral)
  with prepare_message_follows_scan [of ucd_latin1 "str ''AAA''"]
  have "prepare_message ucd_latin1 (str ''AAA'')
          = Inr (replicate 3 [ord CHR ''A'', filler (ord CHR ''A'')])" by blast
  then show ?thesis by (simp add: filler_def str_def ord_def eval_nat_numeral)
qed



text \<open>
  C3 (as amended). \<open>prepare_message("HELLO")\<close> is \<open>[HE, LX, LO]\<close>: after the filler
  that follows the first \<open>L\<close>, the second \<open>L\<close> is paired with \<open>O\<close>; the text has then
  six letters and gets no padding.
\<close>

theorem prepare_message_hello:
  "prepare_message U (str ''HELLO'') = Inr [str ''HE'', str ''LX'', str ''LO'']"
  by (rule prepare_hello)

text \<open>The digraphs are not \<open>[HE, LX, OX]\<close>.\<close>

theorem prepare_message_hello_counterexample:
  "prepare_message ucd_latin1 (str ''HELLO'') \<noteq> Inr [str ''HE'', str ''LX'', str ''OX'']"
  by (simp add: prepare_hello) (simp add: str_def ord_def)

section \<open>Properties of grid construction and of the whole encryption\<close>



text \<open>
  C1 (as amended). \<open>playfair_encrypt("PLAYFAIR", "WE ARE NOT SAFE")\<close> returns
  \<open>UHLBNUQNQYPM\<close>: the digraphs \<open>WE AR EN OT SA FE\<close> on the grid of \<open>PLAYFAIR\<close>
  become \<open>UH LB NU QN QY PM\<close> by the rules of \<open>encrypt_pair\<close>.
\<close>

theorem playfair_encrypt_we_are_not_safe:
  "playfair_encrypt U (str ''PLAYFAIR'') (str ''WE ARE NOT SAFE'') = Inr (str ''UHLBNUQNQYPM'')"
  by (rule encrypt_we_are_not_safe)

text \<open>The ciphertext is not \<open>UBLRUVQPQYPM\<close>.\<close>

theorem playfair_encrypt_we_are_not_safe_counterexample:
  "playfair_encrypt ucd_latin1 (str ''PLAYFAIR'') (str ''WE ARE NOT SAFE'')
     \<noteq> Inr (str ''UBLRUVQPQYPM'')"
  by (simp add: encrypt_we_are_not_safe) (simp add: str_def ord_def)

text \<open>
  C4. The keyword \<open>e\<close> with an acute accent (U+00E9) is a letter for \<open>isalpha\<close>, so
  \<open>create_grid\<close> accepts it; cleaning keeps its capital (U+00C9), which comes first in
  the letters of the grid, and the slices keep the first 25 of the 26: the grid holds the
  capital, then \<open>A\<close> to \<open>Y\<close>, and \<open>Z\<close> is missing. (For an ASCII keyword with a
  letter the grid is complete and laid out as described: \<open>create_grid_ascii\<close> above.)
\<close>

theorem create_grid_latin1_letter:
  "list_ex (isalpha U) [233]
   \<and> create_grid U [233] =
       Inr [201 # str ''ABCD'', str ''EFGHI'', str ''KLMNO'', str ''PQRST'', str ''UVWXY'']
   \<and> ord CHR ''Z'' \<in> set alphabet
   \<and> ord CHR ''Z'' \<notin> set (concat [201 # str ''ABCD'', str ''EFGHI'', str ''KLMNO'', str ''PQRST'', str ''UVWXY''])
   \<and> 201 \<notin> set alphabet"
proof -
  have "list_ex (isalpha U) [233]" by (simp add: isalpha_def)
  moreover have "ord CHR ''Z'' \<in> set alphabet" "201 \<notin> set alphabet"
    by (simp_all add: in_alphabet ord_def)
  moreover have "ord CHR ''Z'' \<notin> set (concat [201 # str ''ABCD'', str ''EFGHI'', str ''KLMNO'', str ''PQRST'', str ''UVWXY''])"
    by (simp add: str_def ord_def)
  ultimately show ?thesis using create_grid_e_acute [of U] by simp
qed

text \<open>
  C5. For the message \<open>e\<close> with an acute accent (U+00E9) the digraph returned holds the
  capital (U+00C9), which is no letter of the reduced alphabet; encryption then fails in
  \<open>find_coordinates\<close>. (For an ASCII message every letter of every digraph is in the
  reduced alphabet: \<open>prepare_message_ascii\<close> above.)
\<close>

theorem prepare_message_latin1_letter:
  "prepare_message U [233] = Inr [[201, ord CHR ''X'']]
   \<and> 201 \<notin> set alphabet
   \<and> playfair_encrypt U (str ''KEY'') [233] = Inl (ValueError_not_found 201)"
proof -
  have "201 \<notin> set alphabet" by (simp add: in_alphabet)
  with prepare_e_acute [of U] encrypt_e_acute [of U] show ?thesis by simp
qed

end
